theory Spec2Isabelle
  imports Complex_Main "HOL-Library.Word"
begin

section \<open>The RSA engine of \<open>lib/rsa\<close> (src/unnamed/part_008)\<close>

subsection \<open>Numbers\<close>

text \<open>
  The engine computes on the TypeScript type \<open>number\<close>. Every value it handles is an
  integer, and on integers of magnitude below \<open>2^53\<close> the operations \<open>+\<close>, \<open>-\<close>,
  \<open>*\<close>, \<open>%\<close>, \<open>Math.floor(x / 2)\<close> and the comparisons are exact, so numbers are
  modelled as \<open>int\<close>. The remainder differs from the one of HOL and is written out.

  The remainder \<open>a % b\<close> takes the sign of the dividend (it truncates towards zero),
  where \<open>mod\<close> of HOL takes the sign of the divisor. For \<open>b = 0\<close> the source yields
  \<open>NaN\<close>; the model then yields \<open>a\<close>. Inside the engine the divisor is zero only in
  \<open>modPow\<close> called with modulus \<open>0\<close>: \<open>gcd\<close> tests \<open>b !== 0\<close> first, the loop of
  \<open>isPrime\<close> divides by \<open>i \<ge> 3\<close> and the loop of \<open>modInverse\<close> runs only for
  \<open>1 \<le> x < m\<close>.
\<close>

definition js_rem :: "int \<Rightarrow> int \<Rightarrow> int" where
  "js_rem a b = sgn a * (\<bar>a\<bar> mod \<bar>b\<bar>)"

subsection \<open>Strings\<close>

text \<open>
  A string is a sequence of UTF-16 code units; \<open>length\<close> of the list is the \<open>.length\<close>
  of the string.
\<close>

type_synonym js_string = "16 word list"

definition is_high_surrogate :: "16 word \<Rightarrow> bool" where
  "is_high_surrogate c = (0xD800 \<le> c \<and> c \<le> 0xDBFF)"

definition is_low_surrogate :: "16 word \<Rightarrow> bool" where
  "is_low_surrogate c = (0xDC00 \<le> c \<and> c \<le> 0xDFFF)"

text \<open>
  \<open>Array.from(message)\<close> runs the string iterator, which yields one string per code
  point: a high surrogate directly followed by a low surrogate comes out as one element of
  two code units, every other code unit as an element of its own.
\<close>

fun Array_from :: "js_string \<Rightarrow> js_string list" where
  "Array_from [] = []"
| "Array_from [c] = [[c]]"
| "Array_from (c1 # c2 # cs) =
     (if is_high_surrogate c1 \<and> is_low_surrogate c2
      then [c1, c2] # Array_from cs
      else [c1] # Array_from (c2 # cs))"

text \<open>
  \<open>char.charCodeAt(0)\<close> is the first code unit. (On the empty string the source yields
  \<open>NaN\<close>; no element of \<open>Array.from\<close> is empty, and the model leaves that case open.)
\<close>

fun charCodeAt0 :: "js_string \<Rightarrow> int" where
  "charCodeAt0 (c # cs) = uint c"

text \<open>
  \<open>String.fromCharCode(x)\<close> is the one code unit \<open>ToUint16(x)\<close>, that is \<open>x\<close> modulo
  \<open>2^16\<close> with a non-negative result.
\<close>

definition fromCharCode :: "int \<Rightarrow> js_string" where
  "fromCharCode x = [word_of_int x]"

text \<open>
  Template literals print a number in decimal; \<open>str\<close> embeds an ASCII literal.
\<close>

function digits :: "nat \<Rightarrow> js_string" where
  "digits k = (if k < 10 then [of_nat (48 + k)] else digits (k div 10) @ [of_nat (48 + k mod 10)])"
  by pat_completeness auto
termination
  by (relation "measure id") auto

definition toString :: "int \<Rightarrow> js_string" where
  "toString x = (if x < 0 then 45 # digits (nat (- x)) else digits (nat x))"

definition str :: "string \<Rightarrow> js_string" where
  "str s = map (\<lambda>c. of_nat (of_char c)) s"

subsection \<open>Number theory primitives\<close>

text \<open>
  \<open>isPrime\<close>: the loop \<open>for (let i = 3; i <= Math.sqrt(n); i += 2)\<close>. The loop
  variable is at least 3, where \<open>i <= Math.sqrt(n)\<close> is \<open>i * i \<le> n\<close> (lemma
  \<open>sqrt_guard\<close> below; the rounding of \<open>Math.sqrt\<close> cannot change the comparison for
  \<open>n < 2^52\<close>).
\<close>

function isPrime_loop :: "int \<Rightarrow> int \<Rightarrow> bool" where
  "isPrime_loop n i =
     (if i * i \<le> n
      then (if js_rem n i = 0 then False else isPrime_loop n (i + 2))
      else True)"
  by pat_completeness auto
termination
proof (relation "measure (\<lambda>(n, i). nat (n + 1 - i))")
  show "wf (measure (\<lambda>(n, i). nat (n + 1 - i)))"
    by simp
next
  fix n i :: int
  assume a: "i * i \<le> n"
  have "i \<le> i * i"
    by (cases "i \<le> 0") (auto simp: mult_le_0_iff intro: order_trans [of i 0] self_le_power [of i 2, simplified power2_eq_square])
  with a show "((n, i + 2), (n, i)) \<in> measure (\<lambda>(n, i). nat (n + 1 - i))"
    by simp
qed

definition isPrime :: "int \<Rightarrow> bool" where
  "isPrime n =
     (if n < 2 then False
      else if n = 2 then True
      else if js_rem n 2 = 0 then False
      else isPrime_loop n 3)"

text \<open>\<open>gcd\<close>: the Euclidean loop, on the remainder of the source.\<close>

function gcd_js :: "int \<Rightarrow> int \<Rightarrow> int" where
  "gcd_js a b = (if b \<noteq> 0 then gcd_js b (js_rem a b) else a)"
  by pat_completeness auto
termination
proof (relation "measure (\<lambda>(a, b). nat \<bar>b\<bar>)")
  show "wf (measure (\<lambda>(a, b). nat \<bar>b\<bar>))"
    by simp
next
  fix a b :: int
  assume "b \<noteq> 0"
  then have "\<bar>js_rem a b\<bar> < \<bar>b\<bar>"
    by (simp add: js_rem_def abs_mult)
  then show "((b, js_rem a b), (a, b)) \<in> measure (\<lambda>(a, b). nat \<bar>b\<bar>)"
    by simp
qed

text \<open>\<open>modInverse\<close>: the search \<open>for (let x = 1; x < m; x++)\<close>; \<open>null\<close> is \<open>None\<close>.\<close>

function modInverse_loop :: "int \<Rightarrow> int \<Rightarrow> int \<Rightarrow> int option" where
  "modInverse_loop a m x =
     (if x < m
      then (if js_rem (a * x) m = 1 then Some x else modInverse_loop a m (x + 1))
      else None)"
  by pat_completeness auto
termination
  by (relation "measure (\<lambda>(a, m, x). nat (m - x))") auto

definition modInverse :: "int \<Rightarrow> int \<Rightarrow> int option" where
  "modInverse a m = modInverse_loop a m 1"

text \<open>
  \<open>modPow\<close>: the loop \<open>while (exp > 0)\<close> on the variables \<open>result\<close>, \<open>base\<close> and
  \<open>exp\<close>; \<open>Math.floor(exp / 2)\<close> is \<open>div\<close> of HOL.
\<close>

function modPow_loop :: "int \<Rightarrow> int \<Rightarrow> int \<Rightarrow> int \<Rightarrow> int" where
  "modPow_loop res base ex m =
     (if ex > 0
      then modPow_loop (if js_rem ex 2 = 1 then js_rem (res * base) m else res)
             (js_rem (base * base) m) (ex div 2) m
      else res)"
  by pat_completeness auto
termination
  by (relation "measure (\<lambda>(res, base, ex, m). nat ex)") auto

definition modPow :: "int \<Rightarrow> int \<Rightarrow> int \<Rightarrow> int" where
  "modPow base ex m = modPow_loop 1 (js_rem base m) ex m"

subsection \<open>Key derivation\<close>

record publicKey =
  pub_e :: int
  pub_n :: int

record privateKey =
  priv_d :: int
  priv_n :: int

record RSAKeyPair =
  publicKey :: publicKey
  privateKey :: privateKey
  kp_p :: int
  kp_q :: int
  kp_phi :: int

record RSAMathSteps =
  nCalculation :: js_string
  phiCalculation :: js_string
  eCalculation :: js_string
  dCalculation :: js_string

text \<open>
  The three \<open>throw\<close> statements of \<open>generateRSAKeyPair\<close>, under the names the
  specification gives their kinds: \<open>'Both p and q must be prime numbers'\<close>,
  \<open>'p and q must be different prime numbers'\<close> and
  \<open>'Could not generate valid private key'\<close>.
\<close>

datatype error = InvalidPrime | DuplicatePrime | KeyDerivationFailed

text \<open>
  The search \<open>let e = 3; while (gcd(e, phi) !== 1) e += 2\<close> has no bound, so it is a
  partial function: \<open>None\<close> stands for a loop that never ends.
\<close>

partial_function (option) find_e :: "int \<Rightarrow> int \<Rightarrow> int option" where
  "find_e e phi = (if gcd_js e phi \<noteq> 1 then find_e (e + 2) phi else Some e)"

text \<open>
  \<open>generateRSAKeyPair\<close>: \<open>None\<close> when the search for \<open>e\<close> does not end, \<open>Inl\<close> for
  a \<open>throw\<close>, \<open>Inr\<close> for the returned key pair. \<open>!d\<close> holds for \<open>null\<close> and for
  \<open>0\<close>.
\<close>

definition generateRSAKeyPair :: "int \<Rightarrow> int \<Rightarrow> (error + RSAKeyPair) option" where
  "generateRSAKeyPair p q =
     (if \<not> isPrime p \<or> \<not> isPrime q then Some (Inl InvalidPrime)
      else if p = q then Some (Inl DuplicatePrime)
      else
        let n = p * q; phi = (p - 1) * (q - 1) in
        case find_e 3 phi of
          None \<Rightarrow> None
        | Some e \<Rightarrow>
            (case modInverse e phi of
               None \<Rightarrow> Some (Inl KeyDerivationFailed)
             | Some d \<Rightarrow>
                 if d = 0 then Some (Inl KeyDerivationFailed)
                 else Some (Inr \<lparr> publicKey = \<lparr> pub_e = e, pub_n = n \<rparr>,
                                  privateKey = \<lparr> priv_d = d, priv_n = n \<rparr>,
                                  kp_p = p, kp_q = q, kp_phi = phi \<rparr>)))"

text \<open>
  \<open>getKeyGenerationSteps\<close>: the four template literals. The characters outside ASCII
  are the multiplication sign (215), the Greek phi (966), and superscript minus (8315)
  and superscript one (185).
\<close>

definition getKeyGenerationSteps :: "int \<Rightarrow> int \<Rightarrow> RSAKeyPair \<Rightarrow> RSAMathSteps" where
  "getKeyGenerationSteps p q keyPair =
     \<lparr> nCalculation =
         toString p @ [32, 215, 32] @ toString q @ str '' = ''
           @ toString (pub_n (publicKey keyPair)),
       phiCalculation =
         str ''('' @ toString p @ str ''-1) '' @ [215] @ str '' ('' @ toString q
           @ str ''-1) = '' @ toString (kp_phi keyPair),
       eCalculation =
         toString (pub_e (publicKey keyPair)) @ str '' (coprime with '' @ [966]
           @ str ''(n))'',
       dCalculation =
         toString (pub_e (publicKey keyPair)) @ [8315, 185] @ str '' mod ''
           @ toString (kp_phi keyPair) @ str '' = ''
           @ toString (priv_d (privateKey keyPair)) \<rparr>"

text \<open>The records of the key derivation trace, in the order of the object's properties.\<close>

definition trace_records :: "RSAMathSteps \<Rightarrow> js_string list" where
  "trace_records s = [nCalculation s, phiCalculation s, eCalculation s, dCalculation s]"

subsection \<open>Message codec\<close>

record EncryptionSteps =
  character :: js_string
  ascii :: int
  calculation :: js_string
  result :: int

definition encryptMessage :: "js_string \<Rightarrow> publicKey \<Rightarrow> int list" where
  "encryptMessage message pk =
     map (\<lambda>char. modPow (charCodeAt0 char) (pub_e pk) (pub_n pk)) (Array_from message)"

text \<open>\<open>join('')\<close> concatenates the one-unit strings.\<close>

definition decryptMessage :: "int list \<Rightarrow> privateKey \<Rightarrow> js_string" where
  "decryptMessage ciphertext sk =
     concat (map (\<lambda>num. fromCharCode (modPow num (priv_d sk) (priv_n sk))) ciphertext)"

definition getEncryptionSteps :: "js_string \<Rightarrow> publicKey \<Rightarrow> EncryptionSteps list" where
  "getEncryptionSteps message pk =
     map (\<lambda>char.
            let a = charCodeAt0 char; r = modPow a (pub_e pk) (pub_n pk) in
            \<lparr> character = char, ascii = a,
              calculation = toString a @ str ''^'' @ toString (pub_e pk) @ str '' mod ''
                @ toString (pub_n pk),
              result = r \<rparr>)
         (Array_from message)"

subsection \<open>Notions of the specification\<close>

text \<open>
  Primality by its definition: \<open>n\<close> is at least 2 and no \<open>d\<close> with \<open>2 \<le> d < n\<close>
  divides it.
\<close>

definition prime_int :: "int \<Rightarrow> bool" where
  "prime_int n = (2 \<le> n \<and> (\<forall>d\<in>{2..n - 1}. \<not> d dvd n))"

text \<open>
  A string has a surrogate pair when a high surrogate is directly followed by a low
  surrogate, that is, when it holds a character outside the Basic Multilingual Plane.
\<close>

fun has_surrogate_pair :: "js_string \<Rightarrow> bool" where
  "has_surrogate_pair (c1 # c2 # cs) =
     ((is_high_surrogate c1 \<and> is_low_surrogate c2) \<or> has_surrogate_pair (c2 # cs))"
| "has_surrogate_pair cs = False"

section \<open>Properties\<close>

text \<open>
  The loops are unfolded one step at a time, by their defining equations where needed.
\<close>

declare isPrime_loop.simps [simp del] gcd_js.simps [simp del] modInverse_loop.simps [simp del]
  modPow_loop.simps [simp del] digits.simps [simp del]

subsection \<open>The remainder\<close>

lemma js_rem_nonneg: "0 \<le> a \<Longrightarrow> js_rem a b = a mod \<bar>b\<bar>"
  by (cases "a = 0") (simp_all add: js_rem_def)

lemma js_rem_pos: "0 \<le> a \<Longrightarrow> 0 < b \<Longrightarrow> js_rem a b = a mod b"
  by (simp add: js_rem_nonneg)


lemma js_rem_eq_0_iff: "b \<noteq> 0 \<Longrightarrow> js_rem a b = 0 \<longleftrightarrow> b dvd a"
  by (auto simp: js_rem_def sgn_if mod_eq_0_iff_dvd)

subsection \<open>\<open>isPrime\<close>\<close>

lemma isPrime_loop_iff:
  "0 < i \<Longrightarrow> odd i \<Longrightarrow>
   isPrime_loop n i = (\<forall>j. i \<le> j \<and> odd j \<and> j * j \<le> n \<longrightarrow> \<not> j dvd n)"
proof (induction n i rule: isPrime_loop.induct)
  case (1 n i)
  show ?case
  proof (cases "i * i \<le> n")
    case False
    have "\<not> j * j \<le> n" if "i \<le> j" for j
    proof -
      have "i * i \<le> j * j"
        using that "1.prems"(1) by (intro mult_mono) auto
      with False show ?thesis by linarith
    qed
    with False show ?thesis
      by (subst isPrime_loop.simps) auto
  next
    case True
    note sq = this
    show ?thesis
    proof (cases "i dvd n")
      case True
      have "isPrime_loop n i = False"
        using sq True "1.prems"(1) by (subst isPrime_loop.simps) (simp add: js_rem_eq_0_iff)
      moreover have "\<not> (\<forall>j. i \<le> j \<and> odd j \<and> j * j \<le> n \<longrightarrow> \<not> j dvd n)"
        using sq True "1.prems"(2) by blast
      ultimately show ?thesis by simp
    next
      case False
      have nz: "js_rem n i \<noteq> 0"
        using False "1.prems"(1) by (simp add: js_rem_eq_0_iff)
      have "isPrime_loop n i = isPrime_loop n (i + 2)"
        using sq nz by (subst isPrime_loop.simps) simp
      also have "\<dots> = (\<forall>j. i + 2 \<le> j \<and> odd j \<and> j * j \<le> n \<longrightarrow> \<not> j dvd n)"
        using "1.IH" [OF sq nz] "1.prems" by simp
      also have "\<dots> = (\<forall>j. i \<le> j \<and> odd j \<and> j * j \<le> n \<longrightarrow> \<not> j dvd n)"
      proof (intro iffI allI impI)
        fix j
        assume h: "\<forall>j. i + 2 \<le> j \<and> odd j \<and> j * j \<le> n \<longrightarrow> \<not> j dvd n"
          and j: "i \<le> j \<and> odd j \<and> j * j \<le> n"
        show "\<not> j dvd n"
        proof (cases "j = i")
          case True
          with False show ?thesis by simp
        next
          case False
          have "j \<noteq> i + 1"
            using j "1.prems"(2) by auto
          with False j have "i + 2 \<le> j" by linarith
          with h j show ?thesis by blast
        qed
      next
        fix j
        assume h: "\<forall>j. i \<le> j \<and> odd j \<and> j * j \<le> n \<longrightarrow> \<not> j dvd n"
          and j: "i + 2 \<le> j \<and> odd j \<and> j * j \<le> n"
        then show "\<not> j dvd n"
          by (metis add_le_same_cancel1 le_add_same_cancel1 order_trans zero_le_numeral)
      qed
      finally show ?thesis .
    qed
  qed
qed

lemma isPrime_odd_iff:
  assumes "2 < n" "odd n"
  shows "isPrime n = (\<forall>j. 3 \<le> j \<and> odd j \<and> j * j \<le> n \<longrightarrow> \<not> j dvd n)"
proof -
  have "js_rem n 2 \<noteq> 0"
    using assms by (simp add: js_rem_eq_0_iff)
  then have "isPrime n = isPrime_loop n 3"
    using assms by (simp add: isPrime_def)
  then show ?thesis
    by (simp add: isPrime_loop_iff)
qed

lemma isPrime_even: "2 < n \<Longrightarrow> even n \<Longrightarrow> \<not> isPrime n"
  by (simp add: isPrime_def js_rem_eq_0_iff)

lemma small_factor:
  fixes n d :: int
  assumes "2 \<le> d" "d < n" "d dvd n"
  shows "\<exists>a. 2 \<le> a \<and> a * a \<le> n \<and> a dvd n"
proof -
  from assms obtain k where k: "n = d * k" by (auto simp: dvd_def)
  have k2: "2 \<le> k"
  proof (rule ccontr)
    assume "\<not> 2 \<le> k"
    then consider "k \<le> 0" | "k = 1" by linarith
    then show False
    proof cases
      case 1
      then have "d * k \<le> 0"
        using assms(1) by (simp add: mult_le_0_iff)
      with k assms show False by linarith
    next
      case 2
      with k assms show False by simp
    qed
  qed
  show ?thesis
  proof (cases "d \<le> k")
    case True
    then have "d * d \<le> d * k"
      using assms(1) by (intro mult_left_mono) auto
    with k assms show ?thesis by auto
  next
    case False
    then have "k * k \<le> d * k"
      using k2 by (intro mult_right_mono) auto
    with k k2 show ?thesis by auto
  qed
qed

lemma isPrime_iff_prime_int: "isPrime n = prime_int n"
proof (cases "n \<le> 2")
  case True
  then show ?thesis
    by (auto simp: isPrime_def prime_int_def)
next
  case False
  then have n: "2 < n" by simp
  show ?thesis
  proof (cases "even n")
    case True
    have "\<not> prime_int n"
      using n True by (auto simp: prime_int_def intro!: bexI [of _ 2])
    with isPrime_even [OF n True] show ?thesis by simp
  next
    case False
    note odd = this
    show ?thesis
    proof
      assume "isPrime n"
      then have nodiv: "\<And>j. 3 \<le> j \<Longrightarrow> odd j \<Longrightarrow> j * j \<le> n \<Longrightarrow> \<not> j dvd n"
        using isPrime_odd_iff [OF n odd] by blast
      have "\<not> d dvd n" if d: "d \<in> {2..n - 1}" for d
      proof
        assume "d dvd n"
        with d small_factor [of d n] obtain a where a: "2 \<le> a" "a * a \<le> n" "a dvd n"
          by auto
        then have "odd a"
          using odd by (meson dvd_trans)
        with a(1) have "3 \<le> a"
          by (cases "a = 2") auto
        with nodiv a \<open>odd a\<close> show False by blast
      qed
      with n show "prime_int n"
        by (simp add: prime_int_def)
    next
      assume p: "prime_int n"
      have "\<not> j dvd n" if j: "3 \<le> j \<and> odd j \<and> j * j \<le> n" for j
      proof -
        have "j * 3 \<le> j * j"
          using j by (intro mult_left_mono) auto
        with j have "j < n" by linarith
        with j have "j \<in> {2..n - 1}" by auto
        with p show ?thesis by (simp add: prime_int_def)
      qed
      then show "isPrime n"
        using isPrime_odd_iff [OF n odd] by blast
    qed
  qed
qed

lemma sqrt_guard: "0 \<le> i \<Longrightarrow> (real_of_int i \<le> sqrt (real_of_int n)) = (i * i \<le> n)"
proof -
  assume i: "0 \<le> i"
  have "(real_of_int i \<le> sqrt (real_of_int n)) = ((real_of_int i)\<^sup>2 \<le> real_of_int n)"
    using i by (metis of_int_0_le_iff real_le_rsqrt real_sqrt_le_iff real_sqrt_abs abs_of_nonneg)
  also have "\<dots> = (i * i \<le> n)"
    by (metis of_int_le_iff of_int_mult power2_eq_square)
  finally show ?thesis .
qed

text \<open>
  Claim C8. For every \<open>n\<close> from 0 to 10000, \<open>isPrime n\<close> agrees with primality by
  definition: it is false for \<open>n < 2\<close>, true for \<open>n = 2\<close>, false for even
  \<open>n > 2\<close>, and for odd \<open>n > 2\<close> it is true exactly when no odd integer from 3 up to
  the integer part of the square root of \<open>n\<close> divides \<open>n\<close>.
\<close>

theorem isPrime_trial_division:
  assumes "0 \<le> n" "n \<le> 10000"
  shows "isPrime n = prime_int n
    \<and> (n < 2 \<longrightarrow> \<not> isPrime n)
    \<and> (n = 2 \<longrightarrow> isPrime n)
    \<and> (2 < n \<and> even n \<longrightarrow> \<not> isPrime n)
    \<and> (2 < n \<and> odd n \<longrightarrow>
         isPrime n = (\<forall>i. 3 \<le> i \<and> odd i \<and> i \<le> \<lfloor>sqrt (real_of_int n)\<rfloor> \<longrightarrow> \<not> i dvd n))"
proof -
  have g: "(i \<le> \<lfloor>sqrt (real_of_int n)\<rfloor>) = (i * i \<le> n)" if "3 \<le> i" for i
    using that by (simp add: le_floor_iff sqrt_guard)
  have "(\<forall>i. 3 \<le> i \<and> odd i \<and> i \<le> \<lfloor>sqrt (real_of_int n)\<rfloor> \<longrightarrow> \<not> i dvd n)
      = (\<forall>j. 3 \<le> j \<and> odd j \<and> j * j \<le> n \<longrightarrow> \<not> j dvd n)"
    using g by blast
  then have odd_case: "2 < n \<and> odd n \<longrightarrow>
      isPrime n = (\<forall>i. 3 \<le> i \<and> odd i \<and> i \<le> \<lfloor>sqrt (real_of_int n)\<rfloor> \<longrightarrow> \<not> i dvd n)"
    using isPrime_odd_iff [of n] by simp
  have small: "n < 2 \<longrightarrow> \<not> isPrime n" and two: "n = 2 \<longrightarrow> isPrime n"
    by (simp_all add: isPrime_def)
  have ev: "2 < n \<and> even n \<longrightarrow> \<not> isPrime n"
    using isPrime_even [of n] by simp
  from isPrime_iff_prime_int [of n] small two ev odd_case show ?thesis
    by (intro conjI)
qed

theorem isPrime_trial_division_witness:
  "(0::int) \<le> 97 \<and> (97::int) \<le> 10000 \<and> isPrime 97 \<and> prime_int 97 \<and> \<not> isPrime 91 \<and> \<not> prime_int 91"
proof -
  have a: "isPrime 97"
    by (simp add: isPrime_def isPrime_loop.simps js_rem_def)
  have b: "\<not> isPrime 91"
    by (simp add: isPrime_def isPrime_loop.simps js_rem_def)
  from a b isPrime_trial_division [of 97] isPrime_trial_division [of 91] show ?thesis
    by simp
qed

subsection \<open>\<open>modInverse\<close>\<close>

lemma modInverse_loop_Some:
  "modInverse_loop a m x = Some y \<Longrightarrow>
   x \<le> y \<and> y < m \<and> js_rem (a * y) m = 1 \<and> (\<forall>z. x \<le> z \<and> z < y \<longrightarrow> js_rem (a * z) m \<noteq> 1)"
proof (induction a m x rule: modInverse_loop.induct)
  case (1 a m x)
  from "1.prems" have lt: "x < m"
    by (subst (asm) modInverse_loop.simps) (simp split: if_splits)
  show ?case
  proof (cases "js_rem (a * x) m = 1")
    case True
    with lt "1.prems" have "y = x"
      by (subst (asm) modInverse_loop.simps) simp
    with lt True show ?thesis by auto
  next
    case False
    with lt "1.prems" have "modInverse_loop a m (x + 1) = Some y"
      by (subst (asm) modInverse_loop.simps) simp
    from "1.IH" [OF lt False this]
    have ih: "x + 1 \<le> y" "y < m" "js_rem (a * y) m = 1"
      "\<forall>z. x + 1 \<le> z \<and> z < y \<longrightarrow> js_rem (a * z) m \<noteq> 1"
      by auto
    have "js_rem (a * z) m \<noteq> 1" if "x \<le> z \<and> z < y" for z
    proof (cases "z = x")
      case True
      with False show ?thesis by simp
    next
      case False
      with that have "x + 1 \<le> z \<and> z < y" by linarith
      with ih(4) show ?thesis by blast
    qed
    with ih show ?thesis by auto
  qed
qed

lemma modInverse_loop_None:
  "modInverse_loop a m x = None \<longleftrightarrow> (\<forall>z. x \<le> z \<and> z < m \<longrightarrow> js_rem (a * z) m \<noteq> 1)"
proof (induction a m x rule: modInverse_loop.induct)
  case (1 a m x)
  show ?case
  proof (cases "x < m")
    case False
    then show ?thesis
      by (subst modInverse_loop.simps) auto
  next
    case True
    note lt = this
    show ?thesis
    proof (cases "js_rem (a * x) m = 1")
      case True
      with lt show ?thesis
        by (subst modInverse_loop.simps) auto
    next
      case False
      have "modInverse_loop a m x = modInverse_loop a m (x + 1)"
        using lt False by (subst modInverse_loop.simps) simp
      moreover have "(\<forall>z. x + 1 \<le> z \<and> z < m \<longrightarrow> js_rem (a * z) m \<noteq> 1)
          = (\<forall>z. x \<le> z \<and> z < m \<longrightarrow> js_rem (a * z) m \<noteq> 1)"
      proof (intro iffI allI impI)
        fix z
        assume h: "\<forall>z. x + 1 \<le> z \<and> z < m \<longrightarrow> js_rem (a * z) m \<noteq> 1" and z: "x \<le> z \<and> z < m"
        show "js_rem (a * z) m \<noteq> 1"
        proof (cases "z = x")
          case True
          with False show ?thesis by simp
        next
          case False
          with z have "x + 1 \<le> z \<and> z < m" by linarith
          with h show ?thesis by blast
        qed
      next
        fix z
        assume h: "\<forall>z. x \<le> z \<and> z < m \<longrightarrow> js_rem (a * z) m \<noteq> 1" and z: "x + 1 \<le> z \<and> z < m"
        then have "x \<le> z \<and> z < m" by linarith
        with h show "js_rem (a * z) m \<noteq> 1" by blast
      qed
      ultimately show ?thesis
        using "1.IH" [OF lt False] by simp
    qed
  qed
qed

lemma inverse_exists:
  fixes a m :: int
  assumes "1 < m" "gcd a m = 1"
  shows "\<exists>y. 0 < y \<and> y < m \<and> (a * y) mod m = 1"
proof -
  from bezout_int [of a m] assms(2) obtain u v where uv: "u * a + v * m = 1"
    by auto
  let ?y = "u mod m"
  have "(a * ?y) mod m = (a * u) mod m"
    by (simp add: mod_mult_right_eq)
  also have "a * u = 1 - v * m"
    using uv by (simp add: algebra_simps)
  also have "(1 - v * m) mod m = 1 mod m"
    by (metis diff_zero mod_diff_right_eq mod_mult_self2_is_0)
  also have "\<dots> = 1"
    using assms(1) by simp
  finally have inv: "(a * ?y) mod m = 1" .
  have "?y \<noteq> 0"
    using inv by auto
  moreover have "0 \<le> ?y" "?y < m"
    using assms(1) by simp_all
  ultimately show ?thesis
    using inv by (intro exI [of _ ?y]) auto
qed

lemma inverse_unique:
  fixes a m x y :: int
  assumes "(a * x) mod m = 1" "(a * y) mod m = 1" "0 < x" "x < m" "0 < y" "y < m"
  shows "x = y"
proof -
  have "x mod m = (x * ((a * y) mod m)) mod m"
    using assms by simp
  also have "\<dots> = (y * ((a * x) mod m)) mod m"
    by (simp add: mod_mult_right_eq mult.left_commute mult.commute)
  also have "\<dots> = y mod m"
    using assms by simp
  finally show ?thesis
    using assms by simp
qed



lemma modInverse_Some:
  assumes "0 \<le> a" "1 < m" "gcd a m = 1"
  shows "\<exists>x. modInverse a m = Some x \<and> 0 < x \<and> x < m \<and> js_rem (a * x) m = 1 \<and> (a * x) mod m = 1
     \<and> (\<forall>y. 0 < y \<and> y < m \<and> (a * y) mod m = 1 \<longrightarrow> y = x)"
proof -
  from inverse_exists [OF assms(2,3)] obtain y where y: "0 < y" "y < m" "(a * y) mod m = 1"
    by blast
  then have "js_rem (a * y) m = 1"
    using assms by (simp add: js_rem_pos)
  with y have "modInverse_loop a m 1 \<noteq> None"
    unfolding modInverse_loop_None by (intro notI) (metis int_one_le_iff_zero_less)
  then obtain x where x: "modInverse_loop a m 1 = Some x" by auto
  from modInverse_loop_Some [OF x] have p: "0 < x" "x < m" "js_rem (a * x) m = 1"
    by auto
  then have inv: "(a * x) mod m = 1"
    using assms by (simp add: js_rem_pos)
  have u: "\<forall>y. 0 < y \<and> y < m \<and> (a * y) mod m = 1 \<longrightarrow> y = x"
    using inverse_unique [OF _ inv] p by blast
  have "modInverse a m = Some x"
    using x by (simp add: modInverse_def)
  with p inv u show ?thesis
    by blast
qed





subsection \<open>\<open>modPow\<close>\<close>

lemma modPow_loop_eq:
  "0 \<le> res \<Longrightarrow> 0 \<le> base \<Longrightarrow> 0 < m \<Longrightarrow>
   modPow_loop res base ex m = (if 0 < ex then (res * base ^ nat ex) mod m else res)"
proof (induction res base ex m rule: modPow_loop.induct)
  case (1 res base ex m)
  show ?case
  proof (cases "0 < ex")
    case False
    then show ?thesis
      by (subst modPow_loop.simps) simp
  next
    case True
    define res' where "res' = (if js_rem ex 2 = 1 then js_rem (res * base) m else res)"
    define base' where "base' = js_rem (base * base) m"
    have r2: "js_rem ex 2 = ex mod 2"
      using True by (simp add: js_rem_pos)
    have res'_eq: "res' = (if ex mod 2 = 1 then (res * base) mod m else res)"
      using "1.prems" unfolding res'_def r2 by (simp add: js_rem_pos)
    have base'_eq: "base' = (base * base) mod m"
      using "1.prems" unfolding base'_def by (simp add: js_rem_pos)
    have res'_nn: "0 \<le> res'"
      using "1.prems" by (simp add: res'_eq)
    have base'_nn: "0 \<le> base'"
      using "1.prems" by (simp add: base'_eq)
    have step: "modPow_loop res base ex m = modPow_loop res' base' (ex div 2) m"
      using True by (subst modPow_loop.simps) (simp add: res'_def base'_def)
    have ih: "modPow_loop res' base' (ex div 2) m
        = (if 0 < ex div 2 then (res' * base' ^ nat (ex div 2)) mod m else res')"
      using "1.IH" [OF True res'_nn [unfolded res'_def] base'_nn [unfolded base'_def] "1.prems"(3)]
      by (simp add: res'_def base'_def)
    have pw: "(base' ^ k) mod m = (base ^ (2 * k)) mod m" for k
      unfolding base'_eq by (simp add: power_mod power_mult power2_eq_square)
    show ?thesis
    proof (cases "0 < ex div 2")
      case False
      with True have ex1: "ex = 1" by linarith
      with ih step "1.prems" show ?thesis
        by (simp add: res'_eq)
    next
      case h: True
      have "nat ex = nat (2 * (ex div 2) + ex mod 2)"
        by simp
      also have "\<dots> = nat (2 * (ex div 2)) + nat (ex mod 2)"
        using h by (intro nat_add_distrib) auto
      also have "nat (2 * (ex div 2)) = 2 * nat (ex div 2)"
        by (simp add: nat_mult_distrib)
      finally have ex_split: "nat ex = 2 * nat (ex div 2) + nat (ex mod 2)" .
      have "modPow_loop res base ex m = (res' * base' ^ nat (ex div 2)) mod m"
        using step ih h by simp
      also have "\<dots> = (res' * (base ^ (2 * nat (ex div 2)) mod m)) mod m"
        using pw [of "nat (ex div 2)"] by (metis mod_mult_right_eq)
      also have "\<dots> = (res' * base ^ (2 * nat (ex div 2))) mod m"
        by (simp add: mod_mult_right_eq)
      also have "\<dots> = (res * base ^ nat ex) mod m"
      proof (cases "ex mod 2 = 1")
        case True
        then have "nat ex = Suc (2 * nat (ex div 2))"
          using ex_split by simp
        moreover have "res' = (res * base) mod m"
          using True by (simp add: res'_eq)
        ultimately show ?thesis
          by (simp add: mod_mult_left_eq mult.assoc)
      next
        case False
        then have "ex mod 2 = 0" by presburger
        then have "nat ex = 2 * nat (ex div 2)"
          using ex_split by simp
        moreover have "res' = res"
          using False by (simp add: res'_eq)
        ultimately show ?thesis by simp
      qed
      finally show ?thesis
        using True by simp
    qed
  qed
qed

lemma modPow_eq:
  assumes "0 \<le> base" "0 < m"
  shows "modPow base ex m = (if 0 < ex then (base ^ nat ex) mod m else 1)"
proof -
  have "js_rem base m = base mod m"
    using assms by (simp add: js_rem_pos)
  then have "modPow base ex m = modPow_loop 1 (base mod m) ex m"
    by (simp add: modPow_def)
  also have "\<dots> = (if 0 < ex then (1 * (base mod m) ^ nat ex) mod m else 1)"
    using assms by (intro modPow_loop_eq) simp_all
  finally show ?thesis
    by (simp add: power_mod)
qed




subsection \<open>\<open>gcd\<close> and the search for the public exponent\<close>

lemma gcd_js_eq: "0 \<le> a \<Longrightarrow> 0 \<le> b \<Longrightarrow> gcd_js a b = gcd a b"
proof (induction a b rule: gcd_js.induct)
  case (1 a b)
  show ?case
  proof (cases "b = 0")
    case True
    with "1.prems" show ?thesis
      by (subst gcd_js.simps) simp
  next
    case False
    with "1.prems" have b: "0 < b" by simp
    have r: "js_rem a b = a mod b"
      using "1.prems" b by (simp add: js_rem_pos)
    have "gcd_js a b = gcd_js b (a mod b)"
      using False r by (subst gcd_js.simps) simp
    also have "\<dots> = gcd b (a mod b)"
      using "1.IH" [OF False] b r "1.prems" by simp
    also have "\<dots> = gcd a b"
      by (rule gcd_red_int [symmetric])
    finally show ?thesis .
  qed
qed

lemma find_e_search:
  "gcd_js (e + 2 * int k) phi = 1 \<Longrightarrow>
   \<exists>j\<le>k. find_e e phi = Some (e + 2 * int j) \<and> gcd_js (e + 2 * int j) phi = 1
     \<and> (\<forall>i<j. gcd_js (e + 2 * int i) phi \<noteq> 1)"
proof (induction k arbitrary: e)
  case 0
  then have "find_e e phi = Some e"
    by (subst find_e.simps) simp
  with 0 show ?case by simp
next
  case (Suc k)
  show ?case
  proof (cases "gcd_js e phi = 1")
    case True
    then have "find_e e phi = Some e"
      by (subst find_e.simps) simp
    with True show ?thesis
      by (intro exI [of _ 0]) simp
  next
    case False
    then have step: "find_e e phi = find_e (e + 2) phi"
      by (subst find_e.simps) simp
    from Suc.prems have "gcd_js ((e + 2) + 2 * int k) phi = 1"
      by (simp add: algebra_simps)
    from Suc.IH [OF this] obtain j where j: "j \<le> k"
      "find_e (e + 2) phi = Some (e + 2 + 2 * int j)"
      "gcd_js (e + 2 + 2 * int j) phi = 1"
      "\<forall>i<j. gcd_js (e + 2 + 2 * int i) phi \<noteq> 1"
      by blast
    have eq: "e + 2 + 2 * int i = e + 2 * int (Suc i)" for i
      by simp
    have "gcd_js (e + 2 * int i) phi \<noteq> 1" if "i < Suc j" for i
    proof (cases i)
      case 0
      with False show ?thesis by simp
    next
      case (Suc i')
      with that have "i' < j" by simp
      with j(4) have "gcd_js (e + 2 + 2 * int i') phi \<noteq> 1" by blast
      then show ?thesis
        unfolding eq Suc .
    qed
    with j step show ?thesis
      unfolding eq by (intro exI [of _ "Suc j"]) simp
  qed
qed

lemma isPrime_ge2: "isPrime p \<Longrightarrow> 2 \<le> p"
  by (simp add: isPrime_def split: if_splits)

lemma isPrime_odd: "isPrime p \<Longrightarrow> p \<noteq> 2 \<Longrightarrow> odd p"
  using isPrime_even [of p] isPrime_ge2 [of p] by (cases "2 < p") auto

lemma phi_even:
  assumes "isPrime p" "isPrime q" "p \<noteq> q"
  shows "even ((p - 1) * (q - 1)) \<and> 2 \<le> (p - 1) * (q - 1)"
proof -
  have ge: "2 \<le> p" "2 \<le> q"
    using assms by (simp_all add: isPrime_ge2)
  consider "p \<noteq> 2" | "q \<noteq> 2"
    using assms(3) by auto
  then show ?thesis
  proof cases
    case 1
    then have "odd p" using assms(1) by (rule isPrime_odd [rotated])
    moreover from 1 ge have "2 \<le> p - 1" by simp
    then have "2 * 1 \<le> (p - 1) * (q - 1)"
      using ge by (intro mult_mono) auto
    ultimately show ?thesis by simp
  next
    case 2
    then have "odd q" using assms(2) by (rule isPrime_odd [rotated])
    moreover from 2 ge have "2 \<le> q - 1" by simp
    then have "1 * 2 \<le> (p - 1) * (q - 1)"
      using ge by (intro mult_mono) auto
    ultimately show ?thesis by simp
  qed
qed

lemma find_e_3:
  assumes "even phi" "2 \<le> phi"
  shows "\<exists>j. find_e 3 phi = Some (3 + 2 * int j) \<and> gcd (3 + 2 * int j) phi = 1
     \<and> (\<forall>i<j. gcd (3 + 2 * int i) phi \<noteq> 1)
     \<and> 3 + 2 * int j \<le> phi + 1 \<and> (2 < phi \<longrightarrow> 3 + 2 * int j < phi)"
proof -
  have g: "gcd_js (3 + 2 * int i) phi = gcd (3 + 2 * int i) phi" for i
    using assms by (intro gcd_js_eq) auto
  define k where "k = (if phi = 2 then 0 else nat ((phi - 4) div 2))"
  have target: "3 + 2 * int k = (if phi = 2 then phi + 1 else phi - 1)"
  proof (cases "phi = 2")
    case True
    then show ?thesis by (simp add: k_def)
  next
    case False
    with assms have "2 * ((phi - 4) div 2) = phi - 4" "0 \<le> (phi - 4) div 2"
      by presburger+
    then have "2 * int (nat ((phi - 4) div 2)) = phi - 4"
      by simp
    then show ?thesis
      using False by (simp add: k_def)
  qed
  have c1: "gcd (phi + 1) phi = 1"
    using coprime_add_one_left [of phi] by (simp only: coprime_iff_gcd_eq_1)
  have c2: "gcd (phi - 1) phi = 1"
    using coprime_diff_one_left [of phi] by (simp only: coprime_iff_gcd_eq_1)
  have "gcd (3 + 2 * int k) phi = 1"
    unfolding target using c1 c2 by simp
  then have "gcd_js (3 + 2 * int k) phi = 1"
    by (simp add: g)
  from find_e_search [OF this] obtain j where j: "j \<le> k"
    "find_e 3 phi = Some (3 + 2 * int j)" "gcd_js (3 + 2 * int j) phi = 1"
    "\<forall>i<j. gcd_js (3 + 2 * int i) phi \<noteq> 1"
    by blast
  have "3 + 2 * int j \<le> 3 + 2 * int k"
    using j(1) by simp
  with target have bound: "3 + 2 * int j \<le> phi + 1 \<and> (2 < phi \<longrightarrow> 3 + 2 * int j < phi)"
    by (auto split: if_splits)
  have "gcd (3 + 2 * int j) phi = 1"
    using j(3) by (simp only: g)
  moreover have "\<forall>i<j. gcd (3 + 2 * int i) phi \<noteq> 1"
    using j(4) by (simp only: g)
  ultimately show ?thesis
    using j(2) bound [THEN conjunct1] bound [THEN conjunct2] by (intro exI [of _ j] conjI)
qed

lemma generateRSAKeyPair_success:
  assumes "isPrime p" "isPrime q" "p \<noteq> q"
  shows "\<exists>j d. generateRSAKeyPair p q =
       Some (Inr \<lparr> publicKey = \<lparr> pub_e = 3 + 2 * int j, pub_n = p * q \<rparr>,
                   privateKey = \<lparr> priv_d = d, priv_n = p * q \<rparr>,
                   kp_p = p, kp_q = q, kp_phi = (p - 1) * (q - 1) \<rparr>)
     \<and> gcd (3 + 2 * int j) ((p - 1) * (q - 1)) = 1
     \<and> (\<forall>i<j. gcd (3 + 2 * int i) ((p - 1) * (q - 1)) \<noteq> 1)
     \<and> 3 + 2 * int j \<le> (p - 1) * (q - 1) + 1
     \<and> (2 < (p - 1) * (q - 1) \<longrightarrow> 3 + 2 * int j < (p - 1) * (q - 1))
     \<and> 0 < d \<and> d < (p - 1) * (q - 1)
     \<and> ((3 + 2 * int j) * d) mod ((p - 1) * (q - 1)) = 1"
proof -
  define phi where "phi = (p - 1) * (q - 1)"
  from phi_even [OF assms] have phi: "even phi" "2 \<le> phi"
    by (simp_all add: phi_def)
  from find_e_3 [OF phi] obtain j where "find_e 3 phi = Some (3 + 2 * int j)
     \<and> gcd (3 + 2 * int j) phi = 1
     \<and> (\<forall>i<j. gcd (3 + 2 * int i) phi \<noteq> 1)
     \<and> 3 + 2 * int j \<le> phi + 1 \<and> (2 < phi \<longrightarrow> 3 + 2 * int j < phi)" ..
  then have j: "find_e 3 phi = Some (3 + 2 * int j)"
    "gcd (3 + 2 * int j) phi = 1" "\<forall>i<j. gcd (3 + 2 * int i) phi \<noteq> 1"
    "3 + 2 * int j \<le> phi + 1" "2 < phi \<longrightarrow> 3 + 2 * int j < phi"
    by simp_all
  have "0 \<le> 3 + 2 * int j" "1 < phi"
    using phi by simp_all
  from modInverse_Some [OF this j(2)] obtain d where "modInverse (3 + 2 * int j) phi = Some d
     \<and> 0 < d \<and> d < phi \<and> js_rem ((3 + 2 * int j) * d) phi = 1
     \<and> ((3 + 2 * int j) * d) mod phi = 1
     \<and> (\<forall>y. 0 < y \<and> y < phi \<and> ((3 + 2 * int j) * y) mod phi = 1 \<longrightarrow> y = d)" ..
  then have d: "modInverse (3 + 2 * int j) phi = Some d"
    "0 < d" "d < phi" "((3 + 2 * int j) * d) mod phi = 1"
    by simp_all
  have "generateRSAKeyPair p q =
       Some (Inr \<lparr> publicKey = \<lparr> pub_e = 3 + 2 * int j, pub_n = p * q \<rparr>,
                   privateKey = \<lparr> priv_d = d, priv_n = p * q \<rparr>,
                   kp_p = p, kp_q = q, kp_phi = phi \<rparr>)"
    unfolding generateRSAKeyPair_def Let_def phi_def [symmetric]
    using assms j(1) d(1,2) by simp
  with j d show ?thesis
    unfolding phi_def by (intro exI [of _ j] exI [of _ d] conjI)
qed

subsection \<open>\<open>generateRSAKeyPair\<close>\<close>

lemma generateRSAKeyPair_Inr:
  assumes "generateRSAKeyPair p q = Some (Inr kp)"
  shows "isPrime p \<and> isPrime q \<and> p \<noteq> q"
proof -
  have primes: "isPrime p \<and> isPrime q"
  proof (rule ccontr)
    assume "\<not> (isPrime p \<and> isPrime q)"
    then have "generateRSAKeyPair p q = Some (Inl InvalidPrime)"
      by (simp add: generateRSAKeyPair_def)
    with assms show False by simp
  qed
  have "p \<noteq> q"
  proof
    assume "p = q"
    with primes have "generateRSAKeyPair p q = Some (Inl DuplicatePrime)"
      by (simp add: generateRSAKeyPair_def)
    with assms show False by simp
  qed
  with primes show ?thesis by simp
qed

lemma generateRSAKeyPair_11_13:
  "generateRSAKeyPair 11 13 =
     Some (Inr \<lparr> publicKey = \<lparr> pub_e = 7, pub_n = 143 \<rparr>,
                 privateKey = \<lparr> priv_d = 103, priv_n = 143 \<rparr>,
                 kp_p = 11, kp_q = 13, kp_phi = 120 \<rparr>)"
  by (simp add: generateRSAKeyPair_def isPrime_def isPrime_loop.simps find_e.simps
      gcd_js.simps modInverse_def modInverse_loop.simps js_rem_def)

text \<open>
  Claim C6. \<open>generateRSAKeyPair p q\<close> fails with \<open>InvalidPrime\<close> whenever
  \<open>isPrime p\<close> and \<open>isPrime q\<close> do not both hold, fails with \<open>DuplicatePrime\<close>
  whenever both are prime and \<open>p = q\<close>, and returns a key pair exactly when both are
  prime and \<open>p \<noteq> q\<close> (so it succeeds only when both preconditions hold); the search
  for \<open>e\<close> ends on every input that reaches it.
\<close>

theorem generateRSAKeyPair_preconditions:
  "(\<not> (isPrime p \<and> isPrime q) \<longrightarrow> generateRSAKeyPair p q = Some (Inl InvalidPrime))
   \<and> (isPrime p \<and> isPrime q \<and> p = q \<longrightarrow> generateRSAKeyPair p q = Some (Inl DuplicatePrime))
   \<and> ((\<exists>kp. generateRSAKeyPair p q = Some (Inr kp)) \<longleftrightarrow> isPrime p \<and> isPrime q \<and> p \<noteq> q)
   \<and> generateRSAKeyPair p q \<noteq> None"
proof -
  have invalid: "\<not> (isPrime p \<and> isPrime q) \<longrightarrow> generateRSAKeyPair p q = Some (Inl InvalidPrime)"
    by (simp add: generateRSAKeyPair_def)
  have duplicate: "isPrime p \<and> isPrime q \<and> p = q \<longrightarrow> generateRSAKeyPair p q = Some (Inl DuplicatePrime)"
    by (simp add: generateRSAKeyPair_def)
  have "\<exists>kp. generateRSAKeyPair p q = Some (Inr kp)" if "isPrime p \<and> isPrime q \<and> p \<noteq> q"
  proof -
    from that have "isPrime p" "isPrime q" "p \<noteq> q" by simp_all
    from generateRSAKeyPair_success [OF this] show ?thesis
      by (elim exE conjE) (rule exI)
  qed
  then have success: "(\<exists>kp. generateRSAKeyPair p q = Some (Inr kp)) \<longleftrightarrow> isPrime p \<and> isPrime q \<and> p \<noteq> q"
    using generateRSAKeyPair_Inr [of p q] by blast
  have returns: "generateRSAKeyPair p q \<noteq> None"
  proof (cases "isPrime p \<and> isPrime q")
    case False
    with invalid show ?thesis by simp
  next
    case True
    show ?thesis
    proof (cases "p = q")
      case True
      with \<open>isPrime p \<and> isPrime q\<close> duplicate show ?thesis by simp
    next
      case False
      with \<open>isPrime p \<and> isPrime q\<close> success obtain kp
        where "generateRSAKeyPair p q = Some (Inr kp)"
        by auto
      then show ?thesis by simp
    qed
  qed
  from invalid duplicate success returns show ?thesis
    by (intro conjI)
qed

theorem generateRSAKeyPair_preconditions_witness:
  "\<not> (isPrime 4 \<and> isPrime 9) \<and> generateRSAKeyPair 4 9 = Some (Inl InvalidPrime)
   \<and> isPrime 7 \<and> generateRSAKeyPair 7 7 = Some (Inl DuplicatePrime)
   \<and> isPrime 11 \<and> isPrime 13 \<and> generateRSAKeyPair 11 13 \<noteq> Some (Inl InvalidPrime)
   \<and> generateRSAKeyPair 11 13 \<noteq> Some (Inl DuplicatePrime)"
proof -
  have p: "\<not> isPrime 4" "isPrime 7" "isPrime 11" "isPrime 13"
    by (simp_all add: isPrime_def isPrime_loop.simps js_rem_def)
  from generateRSAKeyPair_preconditions [of 11 13] p obtain kp
    where "generateRSAKeyPair 11 13 = Some (Inr kp)"
    by auto
  then show ?thesis
    using p generateRSAKeyPair_preconditions [of 4 9] generateRSAKeyPair_preconditions [of 7 7]
    by simp
qed



lemma generateRSAKeyPair_facts:
  assumes "generateRSAKeyPair p q = Some (Inr kp)"
  shows "3 \<le> pub_e (publicKey kp)"
    and "odd (pub_e (publicKey kp))"
    and "\<And>c. 3 \<le> c \<Longrightarrow> odd c \<Longrightarrow> c < pub_e (publicKey kp) \<Longrightarrow> gcd c (kp_phi kp) \<noteq> 1"
    and "gcd (pub_e (publicKey kp)) (kp_phi kp) = 1"
    and "pub_e (publicKey kp) \<le> kp_phi kp + 1"
    and "2 < kp_phi kp \<Longrightarrow> pub_e (publicKey kp) < kp_phi kp"
    and "0 < priv_d (privateKey kp)"
    and "priv_d (privateKey kp) < kp_phi kp"
    and "(priv_d (privateKey kp) * pub_e (publicKey kp)) mod kp_phi kp = 1"
    and "pub_n (publicKey kp) = p * q"
    and "priv_n (privateKey kp) = p * q"
    and "kp_p kp = p"
    and "kp_q kp = q"
    and "kp_phi kp = (p - 1) * (q - 1)"
proof -
  from generateRSAKeyPair_Inr [OF assms] have pq: "isPrime p" "isPrime q" "p \<noteq> q"
    by simp_all
  from generateRSAKeyPair_success [OF pq] obtain j d where
    "generateRSAKeyPair p q =
       Some (Inr \<lparr> publicKey = \<lparr> pub_e = 3 + 2 * int j, pub_n = p * q \<rparr>,
                   privateKey = \<lparr> priv_d = d, priv_n = p * q \<rparr>,
                   kp_p = p, kp_q = q, kp_phi = (p - 1) * (q - 1) \<rparr>)
     \<and> gcd (3 + 2 * int j) ((p - 1) * (q - 1)) = 1
     \<and> (\<forall>i<j. gcd (3 + 2 * int i) ((p - 1) * (q - 1)) \<noteq> 1)
     \<and> 3 + 2 * int j \<le> (p - 1) * (q - 1) + 1
     \<and> (2 < (p - 1) * (q - 1) \<longrightarrow> 3 + 2 * int j < (p - 1) * (q - 1))
     \<and> 0 < d \<and> d < (p - 1) * (q - 1)
     \<and> ((3 + 2 * int j) * d) mod ((p - 1) * (q - 1)) = 1"
    by (elim exE)
  then have f: "generateRSAKeyPair p q =
       Some (Inr \<lparr> publicKey = \<lparr> pub_e = 3 + 2 * int j, pub_n = p * q \<rparr>,
                   privateKey = \<lparr> priv_d = d, priv_n = p * q \<rparr>,
                   kp_p = p, kp_q = q, kp_phi = (p - 1) * (q - 1) \<rparr>)"
    "gcd (3 + 2 * int j) ((p - 1) * (q - 1)) = 1"
    "\<forall>i<j. gcd (3 + 2 * int i) ((p - 1) * (q - 1)) \<noteq> 1"
    "3 + 2 * int j \<le> (p - 1) * (q - 1) + 1"
    "2 < (p - 1) * (q - 1) \<longrightarrow> 3 + 2 * int j < (p - 1) * (q - 1)"
    "0 < d" "d < (p - 1) * (q - 1)"
    "((3 + 2 * int j) * d) mod ((p - 1) * (q - 1)) = 1"
    by simp_all
  from f(1) assms have kp: "kp = \<lparr> publicKey = \<lparr> pub_e = 3 + 2 * int j, pub_n = p * q \<rparr>,
                   privateKey = \<lparr> priv_d = d, priv_n = p * q \<rparr>,
                   kp_p = p, kp_q = q, kp_phi = (p - 1) * (q - 1) \<rparr>"
    by simp
  show "3 \<le> pub_e (publicKey kp)" "odd (pub_e (publicKey kp))"
    unfolding kp by simp_all
  show "gcd (pub_e (publicKey kp)) (kp_phi kp) = 1"
    unfolding kp using f(2) by simp
  show "pub_e (publicKey kp) \<le> kp_phi kp + 1"
    unfolding kp using f(4) by simp
  show "pub_e (publicKey kp) < kp_phi kp" if "2 < kp_phi kp"
    using that f(5) unfolding kp by simp
  show "0 < priv_d (privateKey kp)" "priv_d (privateKey kp) < kp_phi kp"
    unfolding kp using f(6,7) by simp_all
  have "(d * (3 + 2 * int j)) mod ((p - 1) * (q - 1)) = 1"
    using f(8) by (simp only: mult.commute)
  then show "(priv_d (privateKey kp) * pub_e (publicKey kp)) mod kp_phi kp = 1"
    unfolding kp by simp
  show "pub_n (publicKey kp) = p * q" "priv_n (privateKey kp) = p * q" "kp_p kp = p" "kp_q kp = q"
    "kp_phi kp = (p - 1) * (q - 1)"
    unfolding kp by simp_all
  show "gcd c (kp_phi kp) \<noteq> 1" if c: "3 \<le> c" "odd c" "c < pub_e (publicKey kp)" for c
  proof -
    define i where "i = nat ((c - 3) div 2)"
    have "2 * ((c - 3) div 2) = c - 3" "0 \<le> (c - 3) div 2"
      using c(1,2) by presburger+
    then have ci: "c = 3 + 2 * int i"
      by (simp add: i_def)
    with c(3) have "i < j"
      unfolding kp by simp
    then have "gcd (3 + 2 * int i) ((p - 1) * (q - 1)) \<noteq> 1"
      by (rule f(3) [rule_format])
    then show ?thesis
      unfolding kp ci by simp
  qed
qed







subsection \<open>Fermat's little theorem and the RSA identity\<close>









subsection \<open>The message codec\<close>

lemma length_Array_from_le: "length (Array_from msg) \<le> length msg"
  by (induction msg rule: Array_from.induct) auto

lemma Array_from_no_pair:
  "\<not> has_surrogate_pair msg \<Longrightarrow> Array_from msg = map (\<lambda>c. [c]) msg"
  by (induction msg rule: Array_from.induct) auto

lemma length_Array_from_pair:
  "has_surrogate_pair msg \<Longrightarrow> length (Array_from msg) < length msg"
proof (induction msg rule: Array_from.induct)
  case (3 c1 c2 cs)
  show ?case
  proof (cases "is_high_surrogate c1 \<and> is_low_surrogate c2")
    case True
    then show ?thesis
      using length_Array_from_le [of cs] by simp
  next
    case False
    with 3 show ?thesis by auto
  qed
qed simp_all

lemma length_Array_from_iff:
  "length (Array_from msg) = length msg \<longleftrightarrow> \<not> has_surrogate_pair msg"
proof
  assume "length (Array_from msg) = length msg"
  then show "\<not> has_surrogate_pair msg"
    using length_Array_from_pair [of msg] by auto
next
  assume "\<not> has_surrogate_pair msg"
  then show "length (Array_from msg) = length msg"
    by (simp add: Array_from_no_pair)
qed

lemma decryptMessage_Nil: "decryptMessage [] sk = []"
  by (simp add: decryptMessage_def)

lemma decryptMessage_Cons:
  "decryptMessage (x # xs) sk = word_of_int (modPow x (priv_d sk) (priv_n sk)) # decryptMessage xs sk"
  by (simp add: decryptMessage_def fromCharCode_def)

lemma decryptMessage_map:
  "decryptMessage c sk = map (\<lambda>x. word_of_int (modPow x (priv_d sk) (priv_n sk))) c"
  by (induction c) (simp_all add: decryptMessage_Nil decryptMessage_Cons)

lemma length_decryptMessage: "length (decryptMessage c sk) = length c"
  by (simp add: decryptMessage_map)

lemma length_encryptMessage: "length (encryptMessage msg pk) = length (Array_from msg)"
  by (simp add: encryptMessage_def)





lemma not_pair_HI: "\<not> has_surrogate_pair [72, 73]"
  by (simp add: is_high_surrogate_def)

lemma encryptMessage_HI:
  "encryptMessage [72, 73] \<lparr> pub_e = 7, pub_n = 143 \<rparr> = [19, 83]"
proof -
  have "Array_from [72, 73] = [[72], [73]]"
    by (simp add: is_high_surrogate_def)
  moreover have "modPow 72 7 143 = 19" "modPow 73 7 143 = 83"
    by (simp_all add: modPow_def modPow_loop.simps js_rem_def)
  ultimately show ?thesis
    unfolding encryptMessage_def by simp
qed





subsection \<open>\<open>decryptMessage\<close>\<close>

lemma uint_fromCharCode: "uint (word_of_int x :: 16 word) = x mod 65536"
  by (simp add: uint_word_of_int)

text \<open>
  Claim C10, as amended. For every list of integers and every private key \<open>(d, n)\<close>,
  \<open>decryptMessage\<close> returns a string as long as the list, and for \<open>n > 0\<close> its
  \<open>i\<close>-th code unit is \<open>modPow (c ! i) d n\<close> modulo \<open>2^16\<close>; it is
  \<open>modPow (c ! i) d n\<close> itself when the elements are non-negative and \<open>n \<le> 65536\<close>.
\<close>

theorem decryptMessage_units:
  "length (decryptMessage c sk) = length c
   \<and> (0 < priv_n sk \<longrightarrow>
       (\<forall>i<length c.
          uint (decryptMessage c sk ! i) = modPow (c ! i) (priv_d sk) (priv_n sk) mod 65536))
   \<and> ((\<forall>x\<in>set c. 0 \<le> x) \<and> 0 < priv_n sk \<and> priv_n sk \<le> 65536 \<longrightarrow>
       (\<forall>i<length c. uint (decryptMessage c sk ! i) = modPow (c ! i) (priv_d sk) (priv_n sk)))"
proof (intro conjI allI impI)
  show "length (decryptMessage c sk) = length c"
    by (rule length_decryptMessage)
next
  fix i
  assume "0 < priv_n sk" and "i < length c"
  then show "uint (decryptMessage c sk ! i) = modPow (c ! i) (priv_d sk) (priv_n sk) mod 65536"
    by (simp add: decryptMessage_map uint_fromCharCode)
next
  fix i
  assume h: "(\<forall>x\<in>set c. 0 \<le> x) \<and> 0 < priv_n sk \<and> priv_n sk \<le> 65536"
    and i: "i < length c"
  from h i have nn: "0 \<le> c ! i" by simp
  let ?r = "modPow (c ! i) (priv_d sk) (priv_n sk)"
  have eq: "?r = (if 0 < priv_d sk then (c ! i) ^ nat (priv_d sk) mod priv_n sk else 1)"
    using nn h by (simp add: modPow_eq)
  have "0 \<le> ?r \<and> ?r < 65536"
  proof (cases "0 < priv_d sk")
    case True
    then have "?r = (c ! i) ^ nat (priv_d sk) mod priv_n sk"
      by (simp add: eq)
    moreover have "0 \<le> (c ! i) ^ nat (priv_d sk) mod priv_n sk"
      "(c ! i) ^ nat (priv_d sk) mod priv_n sk < priv_n sk"
      using h by simp_all
    ultimately show ?thesis
      using h by linarith
  next
    case False
    then show ?thesis by (simp add: eq)
  qed
  then have "?r mod 65536 = ?r" by simp
  with i show "uint (decryptMessage c sk ! i) = ?r"
    by (simp add: decryptMessage_map uint_fromCharCode)
qed

theorem decryptMessage_units_witness:
  "length (decryptMessage [19, 83] \<lparr> priv_d = 103, priv_n = 143 \<rparr>) = 2
   \<and> modPow 19 103 143 = 72 \<and> modPow 83 103 143 = 73
   \<and> uint (decryptMessage [19, 83] \<lparr> priv_d = 103, priv_n = 143 \<rparr> ! 0) = 72
   \<and> uint (decryptMessage [19, 83] \<lparr> priv_d = 103, priv_n = 143 \<rparr> ! 1) = 73"
proof -
  have m: "modPow 19 103 143 = 72" "modPow 83 103 143 = 73"
    by (simp_all add: modPow_def modPow_loop.simps js_rem_def)
  have h: "(\<forall>x\<in>set [19, 83 :: int]. 0 \<le> x) \<and> 0 < priv_n \<lparr> priv_d = 103, priv_n = 143 \<rparr>
      \<and> priv_n \<lparr> priv_d = 103, priv_n = 143 \<rparr> \<le> 65536"
    by simp
  note t = decryptMessage_units [of "[19, 83]" "\<lparr> priv_d = 103, priv_n = 143 \<rparr>"]
  from t have len: "length (decryptMessage [19, 83] \<lparr> priv_d = 103, priv_n = 143 \<rparr>) = 2"
    by simp
  from t h have u: "\<forall>i<length [19, 83 :: int].
      uint (decryptMessage [19, 83] \<lparr> priv_d = 103, priv_n = 143 \<rparr> ! i)
        = modPow ([19, 83] ! i) (priv_d \<lparr> priv_d = 103, priv_n = 143 \<rparr>)
            (priv_n \<lparr> priv_d = 103, priv_n = 143 \<rparr>)"
    by blast
  from u [rule_format, of 0] u [rule_format, of 1] m len show ?thesis
    by simp
qed

text \<open>
  The claim as stated fails when \<open>modPow\<close> returns a value from \<open>2^16\<close> on, which a
  modulus above \<open>2^16\<close> allows: \<open>String.fromCharCode(65601)\<close> is the character with
  code 65.
\<close>

theorem decryptMessage_units_counterexample:
  "(0::int) < 100000 \<and> modPow 65601 1 100000 = 65601
   \<and> uint (decryptMessage [65601] \<lparr> priv_d = 1, priv_n = 100000 \<rparr> ! 0) = 65
   \<and> (65::int) \<noteq> 65601"
proof -
  have "modPow 65601 1 100000 = 65601"
    by (simp add: modPow_def modPow_loop.simps js_rem_def)
  then show ?thesis
    by (simp add: decryptMessage_Nil decryptMessage_Cons)
qed

text \<open>
  Claim C5, as amended. \<open>decryptMessage\<close> validates nothing and signals no error: for
  every list of integers, negative elements included, it returns one code unit per
  element, in order, so the plaintext of a list is never cut short.
\<close>

theorem decryptMessage_total:
  "decryptMessage c sk = map (\<lambda>x. word_of_int (modPow x (priv_d sk) (priv_n sk))) c
   \<and> length (decryptMessage c sk) = length c
   \<and> decryptMessage (c @ c') sk = decryptMessage c sk @ decryptMessage c' sk"
  by (simp add: decryptMessage_map)

text \<open>
  The claim as stated fails on a ciphertext with an element that is not a non-negative
  integer: for \<open>[-1]\<close> a plaintext is returned, the character with code 65535.
\<close>

theorem decryptMessage_negative_counterexample:
  "\<not> 0 \<le> (- 1 :: int) \<and> decryptMessage [- 1] \<lparr> priv_d = 1, priv_n = 5 \<rparr> = [65535]"
proof -
  have "modPow (- 1) 1 5 = - 1"
    by (simp add: modPow_def modPow_loop.simps js_rem_def)
  then show ?thesis
    by (simp add: decryptMessage_Nil decryptMessage_Cons)
qed

subsection \<open>The traces\<close>

lemma getEncryptionSteps_result:
  "map result (getEncryptionSteps msg pk) = encryptMessage msg pk"
  by (simp add: getEncryptionSteps_def encryptMessage_def Let_def comp_def)

lemma length_getEncryptionSteps:
  "length (getEncryptionSteps msg pk) = length (Array_from msg)"
  by (simp add: getEncryptionSteps_def)

text \<open>
  Claim C9, as amended. The key derivation trace has exactly 4 records, which for a key
  pair returned by \<open>generateRSAKeyPair p q\<close> are the \<open>n\<close>, \<open>phi\<close>, \<open>e\<close> and \<open>d\<close>
  steps; the encryption trace has one record per element of \<open>Array.from\<close>, that is per
  code point of the string, the \<open>i\<close>-th record's result is the \<open>i\<close>-th element of the
  ciphertext, and the number of records is the length of the string exactly when the string
  has no surrogate pair.
\<close>

theorem trace_shape:
  "length (trace_records (getKeyGenerationSteps p q kp)) = 4
   \<and> (generateRSAKeyPair p q = Some (Inr kp) \<longrightarrow>
        trace_records (getKeyGenerationSteps p q kp) =
          [toString p @ [32, 215, 32] @ toString q @ str '' = '' @ toString (p * q),
           str ''('' @ toString p @ str ''-1) '' @ [215] @ str '' ('' @ toString q
             @ str ''-1) = '' @ toString ((p - 1) * (q - 1)),
           toString (pub_e (publicKey kp)) @ str '' (coprime with '' @ [966] @ str ''(n))'',
           toString (pub_e (publicKey kp)) @ [8315, 185] @ str '' mod ''
             @ toString ((p - 1) * (q - 1)) @ str '' = '' @ toString (priv_d (privateKey kp))])
   \<and> length (getEncryptionSteps msg pk) = length (Array_from msg)
   \<and> length (getEncryptionSteps msg pk) = length (encryptMessage msg pk)
   \<and> (\<forall>i<length (getEncryptionSteps msg pk).
         result (getEncryptionSteps msg pk ! i) = encryptMessage msg pk ! i)
   \<and> (length (getEncryptionSteps msg pk) = length msg \<longleftrightarrow> \<not> has_surrogate_pair msg)"
proof -
  have a: "length (trace_records (getKeyGenerationSteps p q kp)) = 4"
    by (simp add: trace_records_def)
  have b: "generateRSAKeyPair p q = Some (Inr kp) \<longrightarrow>
        trace_records (getKeyGenerationSteps p q kp) =
          [toString p @ [32, 215, 32] @ toString q @ str '' = '' @ toString (p * q),
           str ''('' @ toString p @ str ''-1) '' @ [215] @ str '' ('' @ toString q
             @ str ''-1) = '' @ toString ((p - 1) * (q - 1)),
           toString (pub_e (publicKey kp)) @ str '' (coprime with '' @ [966] @ str ''(n))'',
           toString (pub_e (publicKey kp)) @ [8315, 185] @ str '' mod ''
             @ toString ((p - 1) * (q - 1)) @ str '' = '' @ toString (priv_d (privateKey kp))]"
  proof
    assume k: "generateRSAKeyPair p q = Some (Inr kp)"
    note f = generateRSAKeyPair_facts [OF k]
    show "trace_records (getKeyGenerationSteps p q kp) =
          [toString p @ [32, 215, 32] @ toString q @ str '' = '' @ toString (p * q),
           str ''('' @ toString p @ str ''-1) '' @ [215] @ str '' ('' @ toString q
             @ str ''-1) = '' @ toString ((p - 1) * (q - 1)),
           toString (pub_e (publicKey kp)) @ str '' (coprime with '' @ [966] @ str ''(n))'',
           toString (pub_e (publicKey kp)) @ [8315, 185] @ str '' mod ''
             @ toString ((p - 1) * (q - 1)) @ str '' = '' @ toString (priv_d (privateKey kp))]"
      unfolding trace_records_def getKeyGenerationSteps_def f(10) f(14) by simp
  qed
  have c: "length (getEncryptionSteps msg pk) = length (Array_from msg)"
    by (rule length_getEncryptionSteps)
  have d: "length (getEncryptionSteps msg pk) = length (encryptMessage msg pk)"
    by (simp add: length_getEncryptionSteps length_encryptMessage)
  have e: "\<forall>i<length (getEncryptionSteps msg pk).
         result (getEncryptionSteps msg pk ! i) = encryptMessage msg pk ! i"
  proof (intro allI impI)
    fix i
    assume i: "i < length (getEncryptionSteps msg pk)"
    then have "result (getEncryptionSteps msg pk ! i) = map result (getEncryptionSteps msg pk) ! i"
      by simp
    then show "result (getEncryptionSteps msg pk ! i) = encryptMessage msg pk ! i"
      by (simp only: getEncryptionSteps_result)
  qed
  have f: "length (getEncryptionSteps msg pk) = length msg \<longleftrightarrow> \<not> has_surrogate_pair msg"
    by (simp only: length_getEncryptionSteps length_Array_from_iff)
  from a b c d e f show ?thesis
    by (intro conjI)
qed

theorem trace_shape_witness:
  "generateRSAKeyPair 11 13 =
     Some (Inr \<lparr> publicKey = \<lparr> pub_e = 7, pub_n = 143 \<rparr>,
                 privateKey = \<lparr> priv_d = 103, priv_n = 143 \<rparr>,
                 kp_p = 11, kp_q = 13, kp_phi = 120 \<rparr>)
   \<and> trace_records (getKeyGenerationSteps 11 13
        \<lparr> publicKey = \<lparr> pub_e = 7, pub_n = 143 \<rparr>,
          privateKey = \<lparr> priv_d = 103, priv_n = 143 \<rparr>,
          kp_p = 11, kp_q = 13, kp_phi = 120 \<rparr>) =
      [[49, 49, 32, 215, 32, 49, 51, 32, 61, 32, 49, 52, 51],
       [40, 49, 49, 45, 49, 41, 32, 215, 32, 40, 49, 51, 45, 49, 41, 32, 61, 32, 49, 50, 48],
       [55, 32, 40, 99, 111, 112, 114, 105, 109, 101, 32, 119, 105, 116, 104, 32, 966, 40, 110,
        41, 41],
       [55, 8315, 185, 32, 109, 111, 100, 32, 49, 50, 48, 32, 61, 32, 49, 48, 51]]
   \<and> \<not> has_surrogate_pair [72, 73]
   \<and> length (getEncryptionSteps [72, 73] \<lparr> pub_e = 7, pub_n = 143 \<rparr>) = 2
   \<and> result (getEncryptionSteps [72, 73] \<lparr> pub_e = 7, pub_n = 143 \<rparr> ! 0) = 19
   \<and> result (getEncryptionSteps [72, 73] \<lparr> pub_e = 7, pub_n = 143 \<rparr> ! 1) = 83"
proof -
  note t = trace_shape [of 11 13 "\<lparr> publicKey = \<lparr> pub_e = 7, pub_n = 143 \<rparr>,
          privateKey = \<lparr> priv_d = 103, priv_n = 143 \<rparr>,
          kp_p = 11, kp_q = 13, kp_phi = 120 \<rparr>" "[72, 73]" "\<lparr> pub_e = 7, pub_n = 143 \<rparr>"]
  from t generateRSAKeyPair_11_13 have tr: "trace_records (getKeyGenerationSteps 11 13
        \<lparr> publicKey = \<lparr> pub_e = 7, pub_n = 143 \<rparr>,
          privateKey = \<lparr> priv_d = 103, priv_n = 143 \<rparr>,
          kp_p = 11, kp_q = 13, kp_phi = 120 \<rparr>) =
      [[49, 49, 32, 215, 32, 49, 51, 32, 61, 32, 49, 52, 51],
       [40, 49, 49, 45, 49, 41, 32, 215, 32, 40, 49, 51, 45, 49, 41, 32, 61, 32, 49, 50, 48],
       [55, 32, 40, 99, 111, 112, 114, 105, 109, 101, 32, 119, 105, 116, 104, 32, 966, 40, 110,
        41, 41],
       [55, 8315, 185, 32, 109, 111, 100, 32, 49, 50, 48, 32, 61, 32, 49, 48, 51]]"
    by (simp add: toString_def digits.simps str_def)
  from t not_pair_HI have len: "length (getEncryptionSteps [72, 73] \<lparr> pub_e = 7, pub_n = 143 \<rparr>) = 2"
    by simp
  from t have r: "\<forall>i<length (getEncryptionSteps [72, 73] \<lparr> pub_e = 7, pub_n = 143 \<rparr>).
         result (getEncryptionSteps [72, 73] \<lparr> pub_e = 7, pub_n = 143 \<rparr> ! i)
           = encryptMessage [72, 73] \<lparr> pub_e = 7, pub_n = 143 \<rparr> ! i"
    by (elim conjE)
  from r [rule_format, of 0] r [rule_format, of 1] len
  have "result (getEncryptionSteps [72, 73] \<lparr> pub_e = 7, pub_n = 143 \<rparr> ! 0) = 19"
    "result (getEncryptionSteps [72, 73] \<lparr> pub_e = 7, pub_n = 143 \<rparr> ! 1) = 83"
    by (simp_all add: encryptMessage_HI)
  with tr len not_pair_HI generateRSAKeyPair_11_13 show ?thesis
    by (intro conjI)
qed

text \<open>
  The claim as stated fails on a string with a surrogate pair: the string of the two code
  units \<open>0xD83D 0xDE00\<close> (one emoji) has length 2 and one trace record.
\<close>

theorem trace_shape_counterexample:
  "length (getEncryptionSteps [0xD83D, 0xDE00] \<lparr> pub_e = 7, pub_n = 143 \<rparr>) = 1
   \<and> length [0xD83D, 0xDE00 :: 16 word] = 2"
  by (simp add: getEncryptionSteps_def is_high_surrogate_def is_low_surrogate_def)

end
